theory Spec2Isabelle
  imports Main "HOL-Library.Word"
begin

unbundle bit_operations_syntax

section \<open>Go values: bytes, slices, panics and errors\<close>

text \<open>
  The decoder of \<^verbatim>\<open>bmfont.go\<close> works on Go byte slices. A Go slice is a window
  on a backing array: it has a length and a capacity. Index expressions \<^verbatim>\<open>b[i]\<close>
  are checked against the length, slice expressions \<^verbatim>\<open>b[lo:hi]\<close> against the
  capacity, and \<^verbatim>\<open>b[lo:]\<close> takes the length as its upper bound. A failed check
  is a run-time panic. The model keeps the backing array from the first element of the
  slice up to its capacity (\<open>elems\<close>) and the length (\<open>slen\<close>).
\<close>

type_synonym byte = "8 word"
type_synonym uint16 = "16 word"
type_synonym uint32 = "32 word"

text \<open>
  Go's \<^verbatim>\<open>int16\<close> is kept apart from \<^verbatim>\<open>uint16\<close>: the same sixteen bits, read
  as two's complement.
\<close>

datatype int16 = Int16 uint16

fun int16_val :: "int16 \<Rightarrow> int" where
  "int16_val (Int16 w) = sint w"

record slice =
  elems :: "byte list"
  slen :: nat

definition cap :: "slice \<Rightarrow> nat" where
  "cap b = length (elems b)"

definition wf_slice :: "slice \<Rightarrow> bool" where
  "wf_slice b = (slen b \<le> cap b)"

text \<open>The bytes a \<^verbatim>\<open>range\<close> loop over the slice visits.\<close>

definition bytes_of :: "slice \<Rightarrow> byte list" where
  "bytes_of b = take (slen b) (elems b)"

text \<open>A slice whose capacity is its length, as a literal \<^verbatim>\<open>[]byte{...}\<close> gives.\<close>

definition of_bytes :: "byte list \<Rightarrow> slice" where
  "of_bytes bs = \<lparr>elems = bs, slen = length bs\<rparr>"

datatype panic = IndexOutOfRange | SliceBoundsOutOfRange

text \<open>The errors of \<^verbatim>\<open>golang.org/x/text/transform\<close> a transformer may report.\<close>

datatype transform_error = ErrShortDst | ErrShortSrc | ErrEndOfSpan

text \<open>
  The error values the package builds with \<^verbatim>\<open>fmt.Errorf\<close>, one constructor for each
  format string, with the values it prints.
\<close>

datatype err =
    InvalidIdentifier "byte list"
  | UnsupportedVersion byte
  | InfoFontName transform_error
  | InfoBlock err
  | CommonBlock err
  | PagesText
  | CharError nat err
  | KerningPairError nat err

datatype fault = Panic panic | Error err

definition bindR :: "fault + 'a \<Rightarrow> ('a \<Rightarrow> fault + 'b) \<Rightarrow> fault + 'b" where
  "bindR r k = (case r of Inl e \<Rightarrow> Inl e | Inr v \<Rightarrow> k v)"

text \<open>\<^verbatim>\<open>if err != nil { return fmt.Errorf("...: %v", err) }\<close>: an error is wrapped, a panic unwinds.\<close>

definition wrap :: "(err \<Rightarrow> err) \<Rightarrow> fault + 'a \<Rightarrow> fault + 'a" where
  "wrap g r = (case r of Inl (Error e) \<Rightarrow> Inl (Error (g e)) | Inl (Panic p) \<Rightarrow> Inl (Panic p) | Inr v \<Rightarrow> Inr v)"

text \<open>\<^verbatim>\<open>b[i]\<close>\<close>

definition index :: "slice \<Rightarrow> nat \<Rightarrow> fault + byte" where
  "index b i = (if i < slen b then Inr (elems b ! i) else Inl (Panic IndexOutOfRange))"

text \<open>\<^verbatim>\<open>b[lo:hi]\<close>\<close>

definition slice_lh :: "slice \<Rightarrow> nat \<Rightarrow> nat \<Rightarrow> fault + slice" where
  "slice_lh b lo hi =
     (if hi \<le> cap b \<and> lo \<le> hi then Inr \<lparr>elems = drop lo (elems b), slen = hi - lo\<rparr>
      else Inl (Panic SliceBoundsOutOfRange))"

text \<open>\<^verbatim>\<open>b[lo:]\<close>\<close>

definition slice_l :: "slice \<Rightarrow> nat \<Rightarrow> fault + slice" where
  "slice_l b lo =
     (if lo \<le> slen b then Inr \<lparr>elems = drop lo (elems b), slen = slen b - lo\<rparr>
      else Inl (Panic SliceBoundsOutOfRange))"

text \<open>\<^verbatim>\<open>b[:hi]\<close>\<close>

definition slice_h :: "slice \<Rightarrow> nat \<Rightarrow> fault + slice" where
  "slice_h b hi =
     (if hi \<le> cap b then Inr \<lparr>elems = elems b, slen = hi\<rparr>
      else Inl (Panic SliceBoundsOutOfRange))"

text \<open>
  \<^verbatim>\<open>binary.LittleEndian.Uint16\<close> and \<^verbatim>\<open>Uint32\<close> of \<^verbatim>\<open>encoding/binary\<close>: a bounds
  check on the last byte read, then the bytes combined, lowest first.
\<close>

definition Uint16 :: "slice \<Rightarrow> fault + uint16" where
  "Uint16 b =
     (if 1 < slen b
      then Inr (ucast (elems b ! 0) OR push_bit 8 (ucast (elems b ! 1)))
      else Inl (Panic IndexOutOfRange))"

definition Uint32 :: "slice \<Rightarrow> fault + uint32" where
  "Uint32 b =
     (if 3 < slen b
      then Inr (ucast (elems b ! 0) OR push_bit 8 (ucast (elems b ! 1))
                OR push_bit 16 (ucast (elems b ! 2)) OR push_bit 24 (ucast (elems b ! 3)))
      else Inl (Panic IndexOutOfRange))"

text \<open>\<^verbatim>\<open>binary.LittleEndian.Uint16(b[lo:hi])\<close> and its 32-bit sibling, as the decoders write them.\<close>

definition u16_at :: "slice \<Rightarrow> nat \<Rightarrow> nat \<Rightarrow> fault + uint16" where
  "u16_at b lo hi = bindR (slice_lh b lo hi) Uint16"

definition u32_at :: "slice \<Rightarrow> nat \<Rightarrow> nat \<Rightarrow> fault + uint32" where
  "u32_at b lo hi = bindR (slice_lh b lo hi) Uint32"

section \<open>The text transcoder\<close>

text \<open>
  \<^verbatim>\<open>var Encoding encoding.Encoding = charmap.Windows1252\<close> is a package variable; the
  decoders call \<^verbatim>\<open>Encoding.NewDecoder().Transform(dst, src, atEOF)\<close>. The model takes
  the transformer as a parameter: given the length of \<open>dst\<close>, the source bytes and
  \<open>atEOF\<close>, it returns the bytes written to \<open>dst\<close> (so \<open>nDst\<close> is their number)
  and the error, if any.
\<close>

type_synonym transformer = "nat \<Rightarrow> byte list \<Rightarrow> bool \<Rightarrow> byte list \<times> transform_error option"

text \<open>Modelled from the spec: the transcoder itself is not under \<^verbatim>\<open>src/\<close> (it is the
  character-map decoder of \<^verbatim>\<open>golang.org/x/text/encoding/charmap\<close>). The spec describes
  it as decoding a Western European 8-bit code page (Windows-1252, glossary) into a
  variable-width Unicode encoding, into an output buffer allocated by the caller, and
  failing when the conversion cannot proceed. Bytes below 128 are copied; every other
  byte is replaced by the UTF-8 encoding of its code point, read from a table; a byte
  whose encoding does not fit into what is left of \<open>dst\<close> stops the conversion with
  \<open>ErrShortDst\<close>.
\<close>

fun charmapTransform ::
  "(byte \<Rightarrow> byte list) \<Rightarrow> nat \<Rightarrow> byte list \<Rightarrow> byte list \<Rightarrow> byte list \<times> transform_error option"
where
  "charmapTransform dec n out [] = (out, None)"
| "charmapTransform dec n out (c # src) =
     (if c < 0x80
      then (if n \<le> length out then (out, Some ErrShortDst)
            else charmapTransform dec n (out @ [c]) src)
      else (if n < length out + length (dec c) then (out, Some ErrShortDst)
            else charmapTransform dec n (out @ dec c) src))"

text \<open>UTF-8 of a code point of the Basic Multilingual Plane.\<close>

definition utf8 :: "nat \<Rightarrow> byte list" where
  "utf8 r =
     (if r < 0x80 then [of_nat r]
      else if r < 0x800 then [of_nat (0xC0 + r div 64), of_nat (0x80 + r mod 64)]
      else [of_nat (0xE0 + r div 4096), of_nat (0x80 + (r div 64) mod 64), of_nat (0x80 + r mod 64)])"

text \<open>Modelled from the spec: the code points of Windows-1252 for the bytes \<open>0x80\<close> to
  \<open>0x9F\<close> (the table is data of the same library); the five bytes without a
  character (\<open>0x81\<close>, \<open>0x8D\<close>, \<open>0x8F\<close>, \<open>0x90\<close>, \<open>0x9D\<close>) decode to the replacement
  character \<open>U+FFFD\<close>; from \<open>0xA0\<close> on the code point is the byte.
\<close>

definition windows1252_high :: "nat list" where
  "windows1252_high =
     [0x20AC, 0xFFFD, 0x201A, 0x0192, 0x201E, 0x2026, 0x2020, 0x2021,
      0x02C6, 0x2030, 0x0160, 0x2039, 0x0152, 0xFFFD, 0x017D, 0xFFFD,
      0xFFFD, 0x2018, 0x2019, 0x201C, 0x201D, 0x2022, 0x2013, 0x2014,
      0x02DC, 0x2122, 0x0161, 0x203A, 0x0153, 0xFFFD, 0x017E, 0x0178]"

definition windows1252_decode :: "byte \<Rightarrow> byte list" where
  "windows1252_decode c =
     (if c < 0x80 then [c]
      else if c < 0xA0 then utf8 (windows1252_high ! (unat c - 0x80))
      else utf8 (unat c))"

definition Windows1252 :: transformer where
  "Windows1252 n src atEOF = charmapTransform windows1252_decode n [] src"

section \<open>The fixed-record decoders\<close>

record Info =
  FontSize :: int16
  BitField :: byte
  CharSet :: byte
  StretchH :: uint16
  Aa :: byte
  PaddingUp :: byte
  PaddingRight :: byte
  PaddingDown :: byte
  PaddingLeft :: byte
  SpacingHoriz :: byte
  SpacingVert :: byte
  Outline :: byte
  FontName :: "byte list"

text \<open>
  \<^verbatim>\<open>func (i *Info) fromBinary(b []byte) error\<close>. A Go string is a sequence of bytes,
  so \<open>FontName\<close> is a byte list. \<^verbatim>\<open>make([]byte, n)\<close> has length and capacity \<open>n\<close>,
  so \<^verbatim>\<open>fontBuf[:nDst]\<close> panics when \<open>nDst\<close> is larger.
\<close>

definition Info_fromBinary :: "transformer \<Rightarrow> slice \<Rightarrow> fault + Info" where
  "Info_fromBinary tr b =
     bindR (u16_at b 0 2) (\<lambda>fontSize.
     bindR (index b 2) (\<lambda>bitField.
     bindR (index b 3) (\<lambda>charSet.
     bindR (u16_at b 4 6) (\<lambda>stretchH.
     bindR (index b 6) (\<lambda>aa.
     bindR (index b 7) (\<lambda>paddingUp.
     bindR (index b 8) (\<lambda>paddingRight.
     bindR (index b 9) (\<lambda>paddingDown.
     bindR (index b 10) (\<lambda>paddingLeft.
     bindR (index b 11) (\<lambda>spacingHoriz.
     bindR (index b 12) (\<lambda>spacingVert.
     bindR (index b 13) (\<lambda>outline.
     bindR (slice_lh b 14 (slen b)) (\<lambda>src.
       (let n = ((slen b - 14) * 5) div 2;
            (out, terr) = tr n (bytes_of src) True
        in case terr of
             Some e \<Rightarrow> Inl (Error (InfoFontName e))
           | None \<Rightarrow>
               if n < length out then Inl (Panic SliceBoundsOutOfRange)
               else Inr \<lparr>FontSize = Int16 fontSize, BitField = bitField, CharSet = charSet,
                         StretchH = stretchH, Aa = aa, PaddingUp = paddingUp,
                         PaddingRight = paddingRight, PaddingDown = paddingDown,
                         PaddingLeft = paddingLeft, SpacingHoriz = spacingHoriz,
                         SpacingVert = spacingVert, Outline = outline,
                         FontName = out\<rparr>))))))))))))))"

record Common =
  LineHeight :: uint16
  Base :: uint16
  ScaleW :: uint16
  ScaleH :: uint16
  Common_Pages :: uint16
  Common_BitField :: byte
  AlphaChnl :: byte
  RedChnl :: byte
  GreenChnl :: byte
  BlueChnl :: byte

text \<open>
  \<^verbatim>\<open>func (c *Common) fromBinary(b []byte) error\<close>. The fields \<^verbatim>\<open>Pages\<close> and
  \<^verbatim>\<open>BitField\<close> of the Go struct carry the struct's name here, since \<open>Info\<close> and
  \<open>Font\<close> have fields of the same names.
\<close>

definition Common_fromBinary :: "slice \<Rightarrow> fault + Common" where
  "Common_fromBinary b =
     bindR (u16_at b 0 2) (\<lambda>lineHeight.
     bindR (u16_at b 2 4) (\<lambda>base.
     bindR (u16_at b 4 6) (\<lambda>scaleW.
     bindR (u16_at b 6 8) (\<lambda>scaleH.
     bindR (u16_at b 8 10) (\<lambda>pages.
     bindR (index b 10) (\<lambda>bitField.
     bindR (index b 11) (\<lambda>alphaChnl.
     bindR (index b 12) (\<lambda>redChnl.
     bindR (index b 13) (\<lambda>greenChnl.
     bindR (index b 14) (\<lambda>blueChnl.
       Inr \<lparr>LineHeight = lineHeight, Base = base, ScaleW = scaleW, ScaleH = scaleH,
            Common_Pages = pages, Common_BitField = bitField, AlphaChnl = alphaChnl,
            RedChnl = redChnl, GreenChnl = greenChnl, BlueChnl = blueChnl\<rparr>))))))))))"

record Char =
  Id :: uint32
  X :: uint16
  Y :: uint16
  Width :: uint16
  Height :: uint16
  Xoffset :: int16
  Yoffset :: int16
  Xadvance :: int16
  Page :: byte
  Chnl :: byte

text \<open>\<^verbatim>\<open>func (c *Char) fromBinary(b []byte) error\<close>\<close>

definition Char_fromBinary :: "slice \<Rightarrow> fault + Char" where
  "Char_fromBinary b =
     bindR (u32_at b 0 4) (\<lambda>id.
     bindR (u16_at b 4 6) (\<lambda>x.
     bindR (u16_at b 6 8) (\<lambda>y.
     bindR (u16_at b 8 10) (\<lambda>width.
     bindR (u16_at b 10 12) (\<lambda>height.
     bindR (u16_at b 12 14) (\<lambda>xoffset.
     bindR (u16_at b 14 16) (\<lambda>yoffset.
     bindR (u16_at b 16 18) (\<lambda>xadvance.
     bindR (index b 18) (\<lambda>page.
     bindR (index b 19) (\<lambda>chnl.
       Inr \<lparr>Id = id, X = x, Y = y, Width = width, Height = height,
            Xoffset = Int16 xoffset, Yoffset = Int16 yoffset, Xadvance = Int16 xadvance,
            Page = page, Chnl = chnl\<rparr>))))))))))"

text \<open>\<^verbatim>\<open>type KerningPair struct\<close>: \<open>Amount\<close> is declared \<^verbatim>\<open>uint16\<close>.\<close>

record KerningPair =
  First :: uint32
  Second :: uint32
  Amount :: uint16

text \<open>\<^verbatim>\<open>func (kp *KerningPair) fromBinary(b []byte) error\<close>\<close>

definition KerningPair_fromBinary :: "slice \<Rightarrow> fault + KerningPair" where
  "KerningPair_fromBinary b =
     bindR (u32_at b 0 4) (\<lambda>first.
     bindR (u32_at b 4 8) (\<lambda>second.
     bindR (u16_at b 8 10) (\<lambda>amount.
       Inr \<lparr>First = first, Second = second, Amount = amount\<rparr>)))"

section \<open>The document and the block dispatcher\<close>

text \<open>
  \<^verbatim>\<open>strings.Split(s, sep)\<close> of the Go standard library for a separator of one byte:
  the pieces between the separators, one more than there are separators.
\<close>

fun Split :: "byte list \<Rightarrow> byte \<Rightarrow> byte list list" where
  "Split [] sep = [[]]"
| "Split (c # s) sep =
     (if c = sep then [] # Split s sep
      else (case Split s sep of [] \<Rightarrow> [[c]] | w # ws \<Rightarrow> (c # w) # ws))"

text \<open>\<^verbatim>\<open>type Font struct\<close>: the two pointers are options, \<^verbatim>\<open>nil\<close> is \<open>None\<close>.\<close>

record Font =
  Info :: "Info option"
  Common :: "Common option"
  Pages :: "byte list list"
  Chars :: "Char list"
  KerningPairs :: "KerningPair list"

definition NewFont :: Font where
  "NewFont = \<lparr>Info = None, Common = None, Pages = [], Chars = [], KerningPairs = []\<rparr>"

text \<open>
  The two \<^verbatim>\<open>for i := range\<close> loops of the Chars and KerningPairs cases: the records
  are decoded in index order and the first failure ends the loop.
\<close>

fun forEach :: "(nat \<Rightarrow> fault + 'a) \<Rightarrow> nat list \<Rightarrow> fault + 'a list" where
  "forEach g [] = Inr []"
| "forEach g (i # is) =
     (case g i of Inl e \<Rightarrow> Inl e
      | Inr v \<Rightarrow> (case forEach g is of Inl e \<Rightarrow> Inl e | Inr vs \<Rightarrow> Inr (v # vs)))"

text \<open>
  The \<^verbatim>\<open>switch blockId\<close> of \<^verbatim>\<open>FromBuffer\<close>. \<open>blockLenght\<close> is a \<^verbatim>\<open>uint32\<close>, so
  \<^verbatim>\<open>(blockLenght*5)/2\<close>, \<^verbatim>\<open>blockLenght / 20\<close> and \<^verbatim>\<open>blockLenght / 10\<close> are
  computed in 32 bits; the loop index \<open>i\<close> is an \<^verbatim>\<open>int\<close>.
\<close>

definition decodeBlock :: "transformer \<Rightarrow> Font \<Rightarrow> byte \<Rightarrow> uint32 \<Rightarrow> slice \<Rightarrow> fault + Font" where
  "decodeBlock tr f blockId blockLenght blockData =
     (if blockId = 1 then
        bindR (wrap InfoBlock (Info_fromBinary tr blockData)) (\<lambda>i. Inr (f\<lparr>Info := Some i\<rparr>))
      else if blockId = 2 then
        bindR (wrap CommonBlock (Common_fromBinary blockData)) (\<lambda>c. Inr (f\<lparr>Common := Some c\<rparr>))
      else if blockId = 3 then
        (let n = unat ((blockLenght * 5) div 2);
             (out, terr) = tr n (bytes_of blockData) False
         in case terr of
              Some e \<Rightarrow> Inl (Error PagesText)
            | None \<Rightarrow>
                if n < length out then Inl (Panic SliceBoundsOutOfRange)
                else (let pages = Split out 0
                      in if pages = [] then Inl (Panic SliceBoundsOutOfRange)
                         else Inr (f\<lparr>Pages := butlast pages\<rparr>)))
      else if blockId = 4 then
        (let charsCnt = blockLenght div 20
         in bindR (forEach (\<lambda>i. wrap (CharError i)
                     (bindR (slice_lh blockData (i * 20) (i * 20 + 20)) Char_fromBinary))
                   [0 ..< unat charsCnt])
              (\<lambda>cs. Inr (f\<lparr>Chars := cs\<rparr>)))
      else if blockId = 5 then
        (let kerningPairsCnt = blockLenght div 10
         in bindR (forEach (\<lambda>i. wrap (KerningPairError i)
                     (bindR (slice_lh blockData (i * 10) (i * 10 + 10)) KerningPair_fromBinary))
                   [0 ..< unat kerningPairsCnt])
              (\<lambda>ks. Inr (f\<lparr>KerningPairs := ks\<rparr>)))
      else Inr f)"

text \<open>
  One pass through the body of \<^verbatim>\<open>for len(floatBuffer) > 4\<close>: the document and the
  rest of the stream after the block. \<^verbatim>\<open>5+blockLenght\<close> is a 32-bit sum and wraps.
\<close>

definition blockStep :: "transformer \<Rightarrow> Font \<Rightarrow> slice \<Rightarrow> fault + (Font \<times> slice)" where
  "blockStep tr f floatBuffer =
     bindR (index floatBuffer 0) (\<lambda>blockId.
     bindR (u32_at floatBuffer 1 5) (\<lambda>blockLenght.
     bindR (slice_lh floatBuffer 5 (unat (5 + blockLenght))) (\<lambda>blockData.
     bindR (decodeBlock tr f blockId blockLenght blockData) (\<lambda>f'.
     bindR (slice_l floatBuffer (unat (5 + blockLenght))) (\<lambda>rest.
       Inr (f', rest))))))"

function blocks :: "transformer \<Rightarrow> Font \<Rightarrow> slice \<Rightarrow> fault + Font" where
  "blocks tr f floatBuffer =
     (if 4 < slen floatBuffer
      then (case blockStep tr f floatBuffer of
              Inl e \<Rightarrow> Inl e
            | Inr (f', rest) \<Rightarrow> blocks tr f' rest)
      else Inr f)"
  by pat_completeness auto
termination
proof (relation "measure (\<lambda>(tr, f, fb). slen fb)")
  show "wf (measure (\<lambda>(tr, f, fb). slen fb))" by simp
next
  fix tr :: transformer and f :: Font and floatBuffer :: slice and x2 f' rest
  assume "blockStep tr f floatBuffer = Inr x2" and "(f', rest) = x2"
  then have "slen rest + 5 \<le> slen floatBuffer"
    by (auto simp: blockStep_def bindR_def slice_lh_def slice_l_def
             split: sum.splits if_splits)
  then show "((tr, f', rest), (tr, f, floatBuffer)) \<in> measure (\<lambda>(tr, f, fb). slen fb)"
    by simp
qed

text \<open>
  \<^verbatim>\<open>func (f *Font) FromBuffer(b []byte) error\<close>, returning the document it filled.
  When the Go method fails, the receiver stays as far as it was filled; the model
  returns the failure alone.
\<close>

definition invalidIdentifier :: "slice \<Rightarrow> fault + Font" where
  "invalidIdentifier b = bindR (slice_h b 3) (\<lambda>s. Inl (Error (InvalidIdentifier (bytes_of s))))"

definition FromBuffer :: "transformer \<Rightarrow> Font \<Rightarrow> slice \<Rightarrow> fault + Font" where
  "FromBuffer tr f b =
     bindR (index b 0) (\<lambda>b0. if b0 \<noteq> 0x42 then invalidIdentifier b else
     bindR (index b 1) (\<lambda>b1. if b1 \<noteq> 0x4D then invalidIdentifier b else
     bindR (index b 2) (\<lambda>b2. if b2 \<noteq> 0x46 then invalidIdentifier b else
     bindR (index b 3) (\<lambda>b3.
       if b3 \<noteq> 3 then bindR (index b 4) (\<lambda>b4. Inl (Error (UnsupportedVersion b4)))
       else bindR (slice_l b 4) (\<lambda>floatBuffer. blocks tr f floatBuffer)))))"

text \<open>\<^verbatim>\<open>func NewFontFromBuf(b []byte) (*Font, error)\<close>\<close>

definition NewFontFromBuf :: "transformer \<Rightarrow> slice \<Rightarrow> fault + Font" where
  "NewFontFromBuf tr b = FromBuffer tr NewFont b"

text \<open>
  The dispatch loop with a bound on the number of times its condition is tested:
  \<open>None\<close> when the bound is used up before the loop has ended.
\<close>

fun blocks_within :: "nat \<Rightarrow> transformer \<Rightarrow> Font \<Rightarrow> slice \<Rightarrow> (fault + Font) option" where
  "blocks_within 0 tr f floatBuffer = None"
| "blocks_within (Suc k) tr f floatBuffer =
     (if 4 < slen floatBuffer
      then (case blockStep tr f floatBuffer of
              Inl e \<Rightarrow> Some (Inl e)
            | Inr (f', rest) \<Rightarrow> blocks_within k tr f' rest)
      else Some (Inr f))"

text \<open>
  Where the loop stands after \<open>k\<close> passes that went through: the document and the
  rest of the stream at the next test of the loop condition. \<open>None\<close> when one of
  these passes failed or the loop had ended before.
\<close>

fun stateAfter :: "nat \<Rightarrow> transformer \<Rightarrow> Font \<Rightarrow> slice \<Rightarrow> (Font \<times> slice) option" where
  "stateAfter 0 tr f floatBuffer = Some (f, floatBuffer)"
| "stateAfter (Suc k) tr f floatBuffer =
     (if 4 < slen floatBuffer
      then (case blockStep tr f floatBuffer of
              Inl e \<Rightarrow> None
            | Inr (f', rest) \<Rightarrow> stateAfter k tr f' rest)
      else None)"

text \<open>
  The same for \<open>FromBuffer\<close> on a whole buffer: the header \<open>B M F 3\<close> is accepted,
  the loop starts at \<^verbatim>\<open>b[4:]\<close> and \<open>k\<close> blocks are decoded without failure.
\<close>

definition stateAt :: "nat \<Rightarrow> transformer \<Rightarrow> Font \<Rightarrow> slice \<Rightarrow> (Font \<times> slice) option" where
  "stateAt k tr f b =
     (if 4 \<le> slen b \<and> take 4 (elems b) = [0x42, 0x4D, 0x46, 3]
      then stateAfter k tr f \<lparr>elems = drop 4 (elems b), slen = slen b - 4\<rparr>
      else None)"

text \<open>
  The tags of the blocks the loop dispatches from a given state on, in stream order,
  up to the end of the loop or the first pass that fails.
\<close>

function laterTags :: "transformer \<Rightarrow> Font \<Rightarrow> slice \<Rightarrow> byte list" where
  "laterTags tr f floatBuffer =
     (if 4 < slen floatBuffer
      then elems floatBuffer ! 0 #
           (case blockStep tr f floatBuffer of
              Inl e \<Rightarrow> []
            | Inr (f', rest) \<Rightarrow> laterTags tr f' rest)
      else [])"
  by pat_completeness auto
termination
proof (relation "measure (\<lambda>(tr, f, fb). slen fb)")
  show "wf (measure (\<lambda>(tr, f, fb). slen fb))" by simp
next
  fix tr :: transformer and f :: Font and floatBuffer :: slice and x2 f' rest
  assume "blockStep tr f floatBuffer = Inr x2" and "(f', rest) = x2"
  then have "slen rest + 5 \<le> slen floatBuffer"
    by (auto simp: blockStep_def bindR_def slice_lh_def slice_l_def
             split: sum.splits if_splits)
  then show "((tr, f', rest), (tr, f, floatBuffer)) \<in> measure (\<lambda>(tr, f, fb). slen fb)"
    by simp
qed


fun is_ok :: "fault + 'a \<Rightarrow> bool" where
  "is_ok (Inr v) = True"
| "is_ok (Inl e) = False"

text \<open>A result that is not an error value: a document or record, or a panic.\<close>

fun no_err :: "fault + 'a \<Rightarrow> bool" where
  "no_err (Inl (Error e)) = False"
| "no_err (Inl (Panic p)) = True"
| "no_err (Inr v) = True"

section \<open>Basic facts about slices and results\<close>

lemmas slice_defs = index_def slice_lh_def slice_l_def slice_h_def Uint16_def Uint32_def
  u16_at_def u32_at_def cap_def bytes_of_def of_bytes_def

lemma bindR_simps [simp]:
  "bindR (Inl e) k = Inl e"
  "bindR (Inr v) k = k v"
  by (simp_all add: bindR_def)

lemma wrap_simps [simp]:
  "wrap g (Inl (Error e)) = Inl (Error (g e))"
  "wrap g (Inl (Panic p)) = Inl (Panic p)"
  "wrap g (Inr v) = Inr v"
  by (simp_all add: wrap_def)

lemma blockStep_consumes:
  assumes "blockStep tr f fb = Inr (f', fb')"
  shows "slen fb' + 5 \<le> slen fb"
  using assms
  by (auto simp: blockStep_def bindR_def slice_lh_def slice_l_def
           split: sum.splits if_splits)

lemma list3E:
  assumes "3 \<le> length xs"
  obtains x y z r where "xs = x # y # z # r"
  using assms by (auto simp: Suc_le_length_iff numeral_3_eq_3)

section \<open>The header\<close>

text \<open>
  A buffer of at least three bytes whose first three bytes are not \<open>B M F\<close> is
  refused with the invalid-identifier error, which prints those three bytes.
\<close>

lemma invalid_magic:
  assumes "wf_slice b" and "3 \<le> slen b" and "take 3 (elems b) \<noteq> [0x42, 0x4D, 0x46]"
  shows "FromBuffer tr f b = Inl (Error (InvalidIdentifier (take 3 (elems b))))"
proof -
  have "3 \<le> length (elems b)"
    using assms(1,2) by (simp add: wf_slice_def cap_def)
  then obtain x y z r where e: "elems b = x # y # z # r"
    by (rule list3E)
  show ?thesis using assms e
    by (simp add: FromBuffer_def invalidIdentifier_def slice_defs wf_slice_def)
qed

text \<open>
  A buffer of at least five bytes with the right magic and a version byte other than 3
  is refused with the unsupported-version error; the value printed is byte 4, the tag
  of the first block, not the version byte.
\<close>

lemma unsupported_version:
  assumes "wf_slice b" and "5 \<le> slen b" and "take 3 (elems b) = [0x42, 0x4D, 0x46]"
    and "elems b ! 3 \<noteq> 3"
  shows "FromBuffer tr f b = Inl (Error (UnsupportedVersion (elems b ! 4)))"
proof -
  have "elems b = take 3 (elems b) @ drop 3 (elems b)"
    by simp
  then obtain r where e: "elems b = 0x42 # 0x4D # 0x46 # r"
    using assms(3) by simp
  show ?thesis using assms(1,2,4) e
    by (simp add: FromBuffer_def invalidIdentifier_def slice_defs wf_slice_def)
qed

text \<open>
  A buffer that starts with the header \<open>B M F 3\<close> is handed to the dispatch loop
  from byte 4 on.
\<close>

lemma FromBuffer_header:
  assumes "4 \<le> slen b" and "take 4 (elems b) = [0x42, 0x4D, 0x46, 3]"
  shows "FromBuffer tr f b = blocks tr f \<lparr>elems = drop 4 (elems b), slen = slen b - 4\<rparr>"
proof -
  have "elems b = [0x42, 0x4D, 0x46, 3] @ drop 4 (elems b)"
    by (metis assms(2) append_take_drop_id)
  then obtain r where e: "elems b = 0x42 # 0x4D # 0x46 # 3 # r"
    by simp
  show ?thesis using assms(1)
    by (simp add: FromBuffer_def slice_defs e)
qed

text \<open>
  Claim C6. The claim: a buffer with the right magic whose fourth byte is not 3 fails
  with the unsupported-version error. The code builds that error from \<^verbatim>\<open>b[4]\<close>, not
  \<^verbatim>\<open>b[3]\<close>: on the four-byte buffer \<open>B M F 2\<close> the read of index 4 is out of range
  and the decode panics instead of returning the error, whichever transcoder and
  document it is given.
\<close>

theorem version_error_reads_past_header:
  "FromBuffer tr f (of_bytes [0x42, 0x4D, 0x46, 2]) = Inl (Panic IndexOutOfRange)"
  by (simp add: FromBuffer_def slice_defs)

section \<open>Buffers shorter than the header\<close>

lemma list_shape3:
  obtains "es = []" | x where "es = [x]" | x y where "es = [x, y]"
  | x y z r where "es = x # y # z # r"
  by (cases es; cases "tl es"; cases "tl (tl es)") auto

lemma short_cases:
  assumes "(n::nat) < 4"
  obtains "n = 0" | "n = 1" | "n = 2" | "n = 3"
  using assms by linarith

lemma FromBuffer_short:
  assumes "wf_slice b" and "slen b < 4"
  shows "FromBuffer tr f b =
           (if bytes_of b = take (slen b) [0x42, 0x4D, 0x46] then Inl (Panic IndexOutOfRange)
            else if 3 \<le> cap b then Inl (Error (InvalidIdentifier (take 3 (elems b))))
            else Inl (Panic SliceBoundsOutOfRange))"
proof -
  obtain es n where b: "b = \<lparr>elems = es, slen = n\<rparr>" by (cases b) simp
  have n: "n < 4" "n \<le> length es" using assms b by (simp_all add: wf_slice_def cap_def)
  show ?thesis
  proof (cases es rule: list_shape3)
    case 1
    with n b show ?thesis by (simp add: FromBuffer_def slice_defs)
  next
    case (2 x)
    with n b show ?thesis
      by (cases n rule: short_cases) (auto simp: FromBuffer_def invalidIdentifier_def slice_defs)
  next
    case (3 x y)
    with n b show ?thesis
      by (cases n rule: short_cases) (auto simp: FromBuffer_def invalidIdentifier_def slice_defs)
  next
    case (4 x y z r)
    with n b show ?thesis
      by (cases n rule: short_cases) (auto simp: FromBuffer_def invalidIdentifier_def slice_defs)
  qed
qed

lemma FromBuffer_four:
  assumes "wf_slice b" and "slen b = 4" and "bytes_of b = [0x42, 0x4D, 0x46, v]" and "v \<noteq> 3"
  shows "FromBuffer tr f b = Inl (Panic IndexOutOfRange)"
proof -
  obtain es where b: "b = \<lparr>elems = es, slen = 4\<rparr>" using assms(2) by (cases b) simp
  have t: "take 4 es = [0x42, 0x4D, 0x46, v]"
    using assms(3) b by (simp add: bytes_of_def)
  have "es = [0x42, 0x4D, 0x46, v] @ drop 4 es"
    by (metis t append_take_drop_id)
  then obtain r where "es = 0x42 # 0x4D # 0x46 # v # r"
    by simp
  with b assms(4) show ?thesis
    by (simp add: FromBuffer_def slice_defs)
qed

text \<open>
  Claim C10. The claim: every buffer shorter than 4 bytes runs into an out-of-bounds
  access, since bytes 0 to 3 are read unconditionally. The three comparisons are joined
  by \<^verbatim>\<open>||\<close>, which stops at the first byte that differs: the three-byte buffer
  \<open>X Y Z\<close> gets the invalid-identifier error and no index is out of range.
\<close>

theorem short_header_counterexample:
  "NewFontFromBuf Windows1252 (of_bytes [0x58, 0x59, 0x5A])
     = Inl (Error (InvalidIdentifier [0x58, 0x59, 0x5A]))"
  by (simp add: NewFontFromBuf_def FromBuffer_def invalidIdentifier_def slice_defs)

text \<open>
  Claim C10, as amended. For a buffer shorter than 4 bytes: if the bytes present agree
  with \<open>B M F\<close> the decode panics on the first index beyond the length; if one of them
  differs, the decode returns the invalid-identifier error when the capacity is at least
  3 (so for every three-byte buffer) and panics on \<^verbatim>\<open>b[:3]\<close> otherwise. For a buffer
  of exactly 4 bytes with the right magic and a version byte other than 3, the read of
  \<^verbatim>\<open>b[4]\<close> for the version error panics.
\<close>

theorem short_header_outcome:
  assumes "wf_slice b"
  shows "(slen b < 4 \<longrightarrow>
            FromBuffer tr f b =
              (if bytes_of b = take (slen b) [0x42, 0x4D, 0x46] then Inl (Panic IndexOutOfRange)
               else if 3 \<le> cap b then Inl (Error (InvalidIdentifier (take 3 (elems b))))
               else Inl (Panic SliceBoundsOutOfRange)))
       \<and> (\<forall>v. slen b = 4 \<and> bytes_of b = [0x42, 0x4D, 0x46, v] \<and> v \<noteq> 3 \<longrightarrow>
            FromBuffer tr f b = Inl (Panic IndexOutOfRange))"
  using assms FromBuffer_short [of b tr f] FromBuffer_four [of b _ tr f] by blast

theorem short_header_outcome_witness:
  "FromBuffer Windows1252 NewFont (of_bytes [0x42, 0x4D]) = Inl (Panic IndexOutOfRange)
   \<and> FromBuffer Windows1252 NewFont (of_bytes [0x42, 0x58]) = Inl (Panic SliceBoundsOutOfRange)
   \<and> FromBuffer Windows1252 NewFont (of_bytes [0x42, 0x4D, 0x46, 2]) = Inl (Panic IndexOutOfRange)"
proof -
  let ?a = "of_bytes [0x42, 0x4D]"
  let ?b = "of_bytes [0x42, 0x58]"
  let ?c = "of_bytes [0x42, 0x4D, 0x46, 2]"
  have a: "wf_slice ?a" "slen ?a < 4" "bytes_of ?a = take (slen ?a) [0x42, 0x4D, 0x46]"
    by (simp_all add: wf_slice_def slice_defs)
  have b: "wf_slice ?b" "slen ?b < 4" "bytes_of ?b \<noteq> take (slen ?b) [0x42, 0x4D, 0x46]"
    "\<not> 3 \<le> cap ?b"
    by (simp_all add: wf_slice_def slice_defs)
  have c: "wf_slice ?c" "slen ?c = 4" "bytes_of ?c = [0x42, 0x4D, 0x46, 2]" "(2 :: byte) \<noteq> 3"
    by (simp_all add: wf_slice_def slice_defs)
  from short_header_outcome [OF a(1), of Windows1252 NewFont] a(2,3)
  have 1: "FromBuffer Windows1252 NewFont ?a = Inl (Panic IndexOutOfRange)"
    by presburger
  from short_header_outcome [OF b(1), of Windows1252 NewFont] b(2,3,4)
  have 2: "FromBuffer Windows1252 NewFont ?b = Inl (Panic SliceBoundsOutOfRange)"
    by presburger
  from short_header_outcome [OF c(1), of Windows1252 NewFont] c(2,3,4)
  have 3: "FromBuffer Windows1252 NewFont ?c = Inl (Panic IndexOutOfRange)"
    by blast
  from 1 2 3 show ?thesis by blast
qed

section \<open>Kerning pairs\<close>

text \<open>What \<open>KerningPair.fromBinary\<close> makes of a span of at least ten bytes.\<close>

lemma KerningPair_fromBinary_fields:
  assumes "wf_slice b" and "10 \<le> slen b"
  shows "KerningPair_fromBinary b =
           Inr \<lparr>First = ucast (elems b ! 0) OR push_bit 8 (ucast (elems b ! 1))
                     OR push_bit 16 (ucast (elems b ! 2)) OR push_bit 24 (ucast (elems b ! 3)),
                Second = ucast (elems b ! 4) OR push_bit 8 (ucast (elems b ! 5))
                     OR push_bit 16 (ucast (elems b ! 6)) OR push_bit 24 (ucast (elems b ! 7)),
                Amount = ucast (elems b ! 8) OR push_bit 8 (ucast (elems b ! 9))\<rparr>"
  using assms by (simp add: KerningPair_fromBinary_def slice_defs wf_slice_def)

text \<open>
  The signed fields of a glyph record go through \<^verbatim>\<open>int16(...)\<close>: the bytes
  \<open>0xFF 0xFF\<close> at \<open>[12:14)\<close> give the x offset \<open>-1\<close>.
\<close>

lemma Char_offsets_signed:
  "map_sum id (\<lambda>c. int16_val (Xoffset c))
     (Char_fromBinary (of_bytes [0,0,0,0, 0,0, 0,0, 0,0, 0,0, 0xFF,0xFF, 0,0, 0,0, 0, 0])) = Inr (- 1)"
  by (simp add: Char_fromBinary_def slice_defs)

text \<open>
  Claim C2. The claim: the amount of a kerning pair is a signed 16-bit value, so that
  the bytes \<open>0xFF 0xFF\<close> at \<open>[8:10)\<close> decode to \<open>-1\<close>. The code declares \<open>Amount\<close>
  as \<^verbatim>\<open>uint16\<close> and stores the unsigned value without the \<^verbatim>\<open>int16(...)\<close> conversion
  the glyph decoder applies: the same bytes give the amount 65535.
\<close>

theorem KerningPair_amount_unsigned:
  "KerningPair_fromBinary (of_bytes [0, 0, 0, 0, 0, 0, 0, 0, 0xFF, 0xFF])
     = Inr \<lparr>First = 0, Second = 0, Amount = 0xFFFF\<rparr>
   \<and> unat (0xFFFF :: uint16) = 65535"
  by (simp add: KerningPair_fromBinary_def slice_defs)

section \<open>The size of the transcoding buffer\<close>

lemma windows1252_decode_euro: "windows1252_decode 0x80 = [0xE2, 0x82, 0xAC]"
  by (simp add: windows1252_decode_def windows1252_high_def utf8_def)

lemma Windows1252_euro_short: "Windows1252 2 [0x80] atEOF = ([], Some ErrShortDst)"
  by (simp add: Windows1252_def windows1252_decode_euro)

lemma Windows1252_euro_fits: "Windows1252 3 [0x80] atEOF = ([0xE2, 0x82, 0xAC], None)"
  by (simp add: Windows1252_def windows1252_decode_euro)

text \<open>
  The character-map decoder has one way to fail, a destination that is too short; the
  same byte as the only page name fails in the same way.
\<close>

lemma charmapTransform_error:
  "snd (charmapTransform dec n out src) = None \<or> snd (charmapTransform dec n out src) = Some ErrShortDst"
  by (induction src arbitrary: out) simp_all

lemma pages_buffer_too_small:
  "decodeBlock Windows1252 f 3 1 (of_bytes [0x80]) = Inl (Error PagesText)"
  by (simp add: decodeBlock_def slice_defs Windows1252_euro_short)

text \<open>
  Claim C7. The claim: a buffer of 2.5 times the input length is always enough for the
  conversion. Byte \<open>0x80\<close> of Windows-1252 is the euro sign, three bytes in UTF-8; for
  a font name of this one byte the buffer has \<open>(1 * 5) div 2 = 2\<close> bytes, the
  conversion stops with \<open>ErrShortDst\<close> and the decode of a well-formed file fails.
\<close>

theorem font_name_buffer_too_small:
  "NewFontFromBuf Windows1252
     (of_bytes [0x42, 0x4D, 0x46, 3, 1, 15, 0, 0, 0,
                0, 0, 0, 0, 0, 0, 0, 0, 0, 0, 0, 0, 0, 0, 0x80])
   = Inl (Error (InfoBlock (InfoFontName ErrShortDst)))"
  by (simp add: NewFontFromBuf_def FromBuffer_def blockStep_def decodeBlock_def
      Info_fromBinary_def slice_defs Windows1252_euro_short)

section \<open>The dispatch loop\<close>

text \<open>
  The loop ends within \<open>slen fb div 5\<close> passes: with that many tests of its condition
  and one more, the bounded loop gives the result of the loop.
\<close>

lemma blocks_within_enough:
  "slen fb div 5 < k \<Longrightarrow> blocks_within k tr f fb = Some (blocks tr f fb)"
proof (induction k arbitrary: f fb)
  case 0
  then show ?case by simp
next
  case (Suc k)
  show ?case
  proof (cases "4 < slen fb")
    case False
    then show ?thesis by simp
  next
    case True
    show ?thesis
    proof (cases "blockStep tr f fb")
      case (Inl e)
      with True show ?thesis by simp
    next
      case (Inr p)
      obtain f' rest where p: "p = (f', rest)" by (cases p)
      from Inr p have "slen rest + 5 \<le> slen fb"
        using blockStep_consumes by blast
      then have "(slen rest + 5) div 5 \<le> slen fb div 5"
        by (rule div_le_mono)
      with Suc.prems have "slen rest div 5 < k" by simp
      then have "blocks_within k tr f' rest = Some (blocks tr f' rest)"
        by (rule Suc.IH)
      with True Inr p show ?thesis by simp
    qed
  qed
qed

text \<open>
  Claim C9. For every buffer the dispatch loop terminates: after at most
  \<open>slen fb div 5\<close> passes and the final test it has returned (the document, an error
  or a panic); a pass that goes on to the next one leaves at least 5 bytes fewer; with
  fewer than 5 bytes left the loop stops and returns the document as it is, whatever the
  trailing bytes are; with 5 bytes or more it runs another pass.
\<close>

theorem dispatch_loop_terminates:
  "blocks_within (Suc (slen fb div 5)) tr f fb = Some (blocks tr f fb)
   \<and> (\<forall>f' rest. blockStep tr f fb = Inr (f', rest) \<longrightarrow> slen rest + 5 \<le> slen fb)
   \<and> (slen fb < 5 \<longrightarrow> blocks tr f fb = Inr f)
   \<and> (5 \<le> slen fb \<longrightarrow>
        blocks tr f fb = (case blockStep tr f fb of Inl e \<Rightarrow> Inl e
                          | Inr (f', rest) \<Rightarrow> blocks tr f' rest))"
proof (intro conjI allI impI)
  show "blocks_within (Suc (slen fb div 5)) tr f fb = Some (blocks tr f fb)"
    by (rule blocks_within_enough) simp
next
  fix f' rest assume "blockStep tr f fb = Inr (f', rest)"
  then show "slen rest + 5 \<le> slen fb" by (rule blockStep_consumes)
next
  assume "slen fb < 5" then show "blocks tr f fb = Inr f" by simp
next
  assume "5 \<le> slen fb"
  then show "blocks tr f fb = (case blockStep tr f fb of Inl e \<Rightarrow> Inl e
                          | Inr (f', rest) \<Rightarrow> blocks tr f' rest)"
    by (subst blocks.simps) simp
qed

theorem dispatch_loop_terminates_witness:
  "blocks_within 2 Windows1252 NewFont (of_bytes [99, 1, 0, 0, 0, 7, 1, 2]) = Some (Inr NewFont)
   \<and> blockStep Windows1252 NewFont (of_bytes [99, 1, 0, 0, 0, 7, 1, 2])
     = Inr (NewFont, of_bytes [1, 2])
   \<and> slen (of_bytes [1, 2]) + 5 \<le> slen (of_bytes [99, 1, 0, 0, 0, 7, 1, 2])
   \<and> slen (of_bytes [1, 2]) < 5
   \<and> blocks Windows1252 NewFont (of_bytes [1, 2]) = Inr NewFont"
proof -
  let ?fb = "of_bytes [99, 1, 0, 0, 0, 7, 1, 2]"
  have s: "blockStep Windows1252 NewFont ?fb = Inr (NewFont, of_bytes [1, 2])"
    by (simp add: blockStep_def decodeBlock_def slice_defs)
  have n: "Suc (slen ?fb div 5) = 2" by (simp add: slice_defs)
  have t: "slen (of_bytes [1, 2]) < 5" by (simp add: slice_defs)
  have b: "blocks Windows1252 NewFont ?fb = Inr NewFont"
    by (subst blocks.simps, simp add: s, simp add: slice_defs)
  note w = dispatch_loop_terminates [of ?fb Windows1252 NewFont]
  note v = dispatch_loop_terminates [of "of_bytes [1, 2]" Windows1252 NewFont]
  from w have "blocks_within (Suc (slen ?fb div 5)) Windows1252 NewFont ?fb
                 = Some (blocks Windows1252 NewFont ?fb)"
    by (rule conjunct1)
  then have 1: "blocks_within 2 Windows1252 NewFont ?fb = Some (Inr NewFont)"
    by (simp only: n b)
  from w s have 2: "slen (of_bytes [1, 2]) + 5 \<le> slen ?fb"
    by blast
  from v t have 3: "blocks Windows1252 NewFont (of_bytes [1, 2]) = Inr NewFont"
    by blast
  from 1 s 2 t 3 show ?thesis by blast
qed

section \<open>Unknown tags\<close>

text \<open>
  \<^verbatim>\<open>5+blockLenght\<close> is the plain sum when it fits into 32 bits.
\<close>

lemma unat_5_plus:
  fixes L :: uint32
  assumes "5 + unat L < 2 ^ 32"
  shows "unat (5 + L) = 5 + unat L"
  using assms by (simp add: unat_word_ariths)

lemma decodeBlock_unknown:
  assumes "blockId \<notin> {1, 2, 3, 4, 5}"
  shows "decodeBlock tr f blockId L d = Inr f"
  using assms by (simp add: decodeBlock_def)

lemma blockStep_unknown:
  assumes "wf_slice fb" and "4 < slen fb" and "u32_at fb 1 5 = Inr L"
    and "5 + unat L \<le> slen fb" and "5 + unat L < 2 ^ 32"
    and "elems fb ! 0 \<notin> {1, 2, 3, 4, 5}"
  shows "blockStep tr f fb =
           Inr (f, \<lparr>elems = drop (5 + unat L) (elems fb), slen = slen fb - (5 + unat L)\<rparr>)"
proof -
  have u: "unat (5 + L) = 5 + unat L"
    using assms(5) by (rule unat_5_plus)
  have i: "index fb 0 = Inr (elems fb ! 0)"
    using assms(2) by (simp add: index_def)
  have s: "slice_lh fb 5 (5 + unat L) = Inr \<lparr>elems = drop 5 (elems fb), slen = unat L\<rparr>"
    using assms(1,4) by (simp add: slice_lh_def wf_slice_def)
  have r: "slice_l fb (5 + unat L) =
             Inr \<lparr>elems = drop (5 + unat L) (elems fb), slen = slen fb - (5 + unat L)\<rparr>"
    using assms(4) by (simp add: slice_l_def)
  show ?thesis
    using assms(3) unfolding blockStep_def
    by (simp add: i u s r decodeBlock_unknown [OF assms(6)])
qed

text \<open>
  Claim C8. A block whose tag is none of 1 to 5, with its header and its declared
  payload inside the rest of the buffer (and \<open>5 + L\<close> below \<open>2^32\<close>, the sum the code
  computes in 32 bits): the switch returns the document unchanged whatever the payload,
  the pass ends without error with the same document and the stream after the payload,
  and the loop gives what it gives on the stream with the block taken away.
\<close>

theorem unknown_block_skipped:
  assumes "wf_slice fb" and "4 < slen fb" and "u32_at fb 1 5 = Inr L"
    and "5 + unat L \<le> slen fb" and "5 + unat L < 2 ^ 32"
    and "elems fb ! 0 \<notin> {1, 2, 3, 4, 5}"
  shows "(\<forall>d. decodeBlock tr f (elems fb ! 0) L d = Inr f)
       \<and> blockStep tr f fb =
           Inr (f, \<lparr>elems = drop (5 + unat L) (elems fb), slen = slen fb - (5 + unat L)\<rparr>)
       \<and> blocks tr f fb =
           blocks tr f \<lparr>elems = drop (5 + unat L) (elems fb), slen = slen fb - (5 + unat L)\<rparr>"
proof (intro conjI allI)
  fix d show "decodeBlock tr f (elems fb ! 0) L d = Inr f"
    using assms(6) by (rule decodeBlock_unknown)
next
  show s: "blockStep tr f fb =
           Inr (f, \<lparr>elems = drop (5 + unat L) (elems fb), slen = slen fb - (5 + unat L)\<rparr>)"
    using assms by (rule blockStep_unknown)
  show "blocks tr f fb =
           blocks tr f \<lparr>elems = drop (5 + unat L) (elems fb), slen = slen fb - (5 + unat L)\<rparr>"
    using assms(2) by (subst blocks.simps) (simp add: s)
qed

theorem unknown_block_skipped_witness:
  "blocks Windows1252 NewFont (of_bytes [99, 3, 0, 0, 0, 7, 8, 9, 5, 10, 0, 0, 0, 1, 0, 0, 0, 2, 0, 0, 0, 3, 0])
     = blocks Windows1252 NewFont (of_bytes [5, 10, 0, 0, 0, 1, 0, 0, 0, 2, 0, 0, 0, 3, 0])
   \<and> blocks Windows1252 NewFont (of_bytes [5, 10, 0, 0, 0, 1, 0, 0, 0, 2, 0, 0, 0, 3, 0])
     = Inr (NewFont\<lparr>KerningPairs := [\<lparr>First = 1, Second = 2, Amount = 3\<rparr>]\<rparr>)"
proof -
  let ?fb = "of_bytes [99, 3, 0, 0, 0, 7, 8, 9, 5, 10, 0, 0, 0, 1, 0, 0, 0, 2, 0, 0, 0, 3, 0]"
  have h1: "wf_slice ?fb" by (simp add: wf_slice_def slice_defs)
  have h2: "4 < slen ?fb" by (simp add: slice_defs)
  have h3: "u32_at ?fb 1 5 = Inr 3" by (simp add: slice_defs)
  have h4: "5 + unat (3 :: uint32) \<le> slen ?fb" by (simp add: slice_defs)
  have h5: "5 + unat (3 :: uint32) < 2 ^ 32" by simp
  have h6: "elems ?fb ! 0 \<notin> {1, 2, 3, 4, 5}" by (simp add: slice_defs)
  have k: "blocks Windows1252 NewFont (of_bytes [5, 10, 0, 0, 0, 1, 0, 0, 0, 2, 0, 0, 0, 3, 0])
     = Inr (NewFont\<lparr>KerningPairs := [\<lparr>First = 1, Second = 2, Amount = 3\<rparr>]\<rparr>)"
    by (simp add: blockStep_def decodeBlock_def KerningPair_fromBinary_def slice_defs)
  from unknown_block_skipped [OF h1 h2 h3 h4 h5 h6, of Windows1252 NewFont] k
  show ?thesis by (simp add: slice_defs)
qed

section \<open>Truncated blocks and short records\<close>


















lemma unat_5_plus_wraps:
  fixes L :: uint32
  assumes "2 ^ 32 \<le> 5 + unat L"
  shows "unat (5 + L) < 5"
proof -
  have "unat L < 2 ^ 32" using unsigned_less [of L] by simp
  with assms have "(5 + unat L) mod 2 ^ 32 = 5 + unat L - 2 ^ 32"
    by (simp add: mod_if)
  moreover have "unat (5 + L) = (5 + unat L) mod 2 ^ 32"
    by (simp add: unat_word_ariths)
  ultimately show ?thesis using \<open>unat L < 2 ^ 32\<close> by simp
qed








text \<open>
  The decode of a buffer is the loop continued from wherever it stands after some
  blocks.
\<close>

lemma stateAfter_blocks:
  "stateAfter k tr f fb = Some (f1, fb1) \<Longrightarrow> blocks tr f fb = blocks tr f1 fb1"
proof (induction k arbitrary: f fb)
  case 0
  then show ?case by simp
next
  case (Suc k)
  from Suc.prems have l: "4 < slen fb"
    by (simp split: if_splits)
  with Suc.prems obtain f' rest where s: "blockStep tr f fb = Inr (f', rest)"
    and a: "stateAfter k tr f' rest = Some (f1, fb1)"
    by (auto split: sum.splits)
  from l s have "blocks tr f fb = blocks tr f' rest"
    by (subst blocks.simps) simp
  with Suc.IH [OF a] show ?case by simp
qed

lemma stateAt_FromBuffer:
  assumes "stateAt k tr f b = Some (f1, fb1)"
  shows "FromBuffer tr f b = blocks tr f1 fb1"
proof -
  from assms have h: "4 \<le> slen b" "take 4 (elems b) = [0x42, 0x4D, 0x46, 3]"
    and a: "stateAfter k tr f \<lparr>elems = drop 4 (elems b), slen = slen b - 4\<rparr> = Some (f1, fb1)"
    by (simp_all add: stateAt_def split: if_splits)
  from FromBuffer_header [OF h] stateAfter_blocks [OF a] show ?thesis by simp
qed





text \<open>
  When \<^verbatim>\<open>floatBuffer[5 : 5+blockLenght]\<close> succeeds the sum has not wrapped and the
  payload has the declared length.
\<close>

lemma payload_slice:
  fixes L :: uint32
  assumes "slice_lh fb 5 (unat (5 + L)) = Inr d"
  shows "unat (5 + L) = 5 + unat L" and "d = \<lparr>elems = drop 5 (elems fb), slen = unat L\<rparr>"
    and "wf_slice d"
proof -
  from assms have h: "5 \<le> unat (5 + L)" "unat (5 + L) \<le> cap fb"
    and d: "d = \<lparr>elems = drop 5 (elems fb), slen = unat (5 + L) - 5\<rparr>"
    by (auto simp: slice_lh_def split: if_splits)
  have "5 + unat L < 2 ^ 32"
  proof (rule ccontr)
    assume "\<not> 5 + unat L < 2 ^ 32"
    then have "unat (5 + L) < 5" by (intro unat_5_plus_wraps) simp
    with h(1) show False by simp
  qed
  then show u: "unat (5 + L) = 5 + unat L" by (rule unat_5_plus)
  with d show "d = \<lparr>elems = drop 5 (elems fb), slen = unat L\<rparr>" by simp
  with u h(2) show "wf_slice d" by (simp add: wf_slice_def cap_def)
qed


lemma blocks_step_eq:
  assumes "4 < slen fb"
  shows "blocks tr f fb = (case blockStep tr f fb of Inl e \<Rightarrow> Inl e
                            | Inr (f', rest) \<Rightarrow> blocks tr f' rest)"
  using assms by (subst blocks.simps) simp

text \<open>
  An Info block that declares 15 bytes with 14 of them inside the length and the euro
  sign in the spare capacity: the decode reads the byte past the length and returns the
  transcoder's error, before the stream is re-sliced.
\<close>

lemma truncated_info_reads_spare_capacity:
  "blocks Windows1252 NewFont
     \<lparr>elems = [1, 15, 0, 0, 0, 0, 0, 0, 0, 0, 0, 0, 0, 0, 0, 0, 0, 0, 0, 0x80], slen = 19\<rparr>
   = Inl (Error (InfoBlock (InfoFontName ErrShortDst)))"
  by (simp add: blockStep_def decodeBlock_def Info_fromBinary_def slice_defs
      Windows1252_euro_short)




section \<open>The Pages block\<close>

text \<open>
  \<open>Split\<close> cuts at every separator: the pieces hold no separator, and joined again
  with one separator after each piece but the last they give the string back.
\<close>

lemma Split_not_Nil: "Split s sep \<noteq> []"
  by (induction s) (auto split: list.splits)

lemma Split_name:
  assumes "sep \<notin> set n"
  shows "Split (n @ sep # rest) sep = n # Split rest sep"
  using assms by (induction n) auto

lemma Split_names:
  assumes "\<forall>n \<in> set names. sep \<notin> set n"
  shows "Split (concat (map (\<lambda>n. n @ [sep]) names)) sep = names @ [[]]"
  using assms by (induction names) (simp_all add: Split_name)

lemma Split_pieces: "p \<in> set (Split s sep) \<Longrightarrow> sep \<notin> set p"
proof (induction s arbitrary: p)
  case Nil
  then show ?case by simp
next
  case (Cons c s)
  then show ?case
    by (cases "Split s sep") (auto simp: Split_not_Nil split: if_splits)
qed

lemma Split_join:
  "concat (map (\<lambda>p. p @ [sep]) (butlast (Split s sep))) @ last (Split s sep) = s"
proof (induction s)
  case Nil
  show ?case by simp
next
  case (Cons c s)
  then show ?case
    by (cases "Split s sep"; cases "tl (Split s sep)") (auto simp: Split_not_Nil)
qed

lemma Split_single:
  assumes "Split s sep = [w]"
  shows "sep \<notin> set s"
proof -
  from Split_join [of sep s] assms have "w = s" by simp
  moreover from Split_pieces [of w s sep] assms have "sep \<notin> set w" by simp
  ultimately show ?thesis by simp
qed

lemma Split_last_empty: "(last (Split s sep) = []) = (s = [] \<or> last s = sep)"
proof (induction s)
  case Nil
  show ?case by simp
next
  case (Cons c s)
  show ?case
  proof (cases "c = sep")
    case True
    then have "last (Split (c # s) sep) = last (Split s sep)"
      by (simp add: Split_not_Nil)
    with True Cons.IH show ?thesis
      by (cases "s = []") (simp_all del: Split.simps)
  next
    case False
    obtain w ws where sp: "Split s sep = w # ws"
      using Split_not_Nil [of s sep] by (cases "Split s sep") simp_all
    show ?thesis
    proof (cases ws)
      case Nil
      with sp have "sep \<notin> set s" by (intro Split_single) simp
      then have "s \<noteq> [] \<Longrightarrow> last s \<noteq> sep" using last_in_set by metis
      with False sp Nil show ?thesis by auto
    next
      case (Cons v vs)
      with sp have "s \<noteq> []" by auto
      with False sp Cons Cons.IH show ?thesis by simp
    qed
  qed
qed

lemma decodeBlock_pages:
  assumes "tr (unat ((L * 5) div 2)) (bytes_of d) False = (s, None)"
    and "length s \<le> unat ((L * 5) div 2)"
  shows "decodeBlock tr f 3 L d = Inr (f\<lparr>Pages := butlast (Split s 0)\<rparr>)"
  using assms by (simp add: decodeBlock_def Split_not_Nil)

text \<open>
  Claim C3. The claim: the element dropped from the end of the split list is the empty
  one that the trailing terminator produces. The code drops the last element whatever
  it is: for the payload \<open>A\<close>, null, \<open>B\<close>, which does not end with a terminator, the
  name \<open>B\<close> is dropped.
\<close>

theorem pages_unterminated_counterexample:
  "NewFontFromBuf Windows1252 (of_bytes [0x42, 0x4D, 0x46, 3, 3, 3, 0, 0, 0, 0x41, 0, 0x42])
     = Inr (NewFont\<lparr>Pages := [[0x41]]\<rparr>)"
  by (simp add: NewFontFromBuf_def FromBuffer_def blockStep_def decodeBlock_def slice_defs
      Windows1252_def NewFont_def)

text \<open>
  Claim C3, as amended. For a Pages block whose whole payload the transcoder turns
  into the string \<open>s\<close> (it reports no error and stays within the buffer it is given):
  the pages are the pieces of \<open>s\<close> between the null bytes, in the order of the
  payload, without the last piece; the piece dropped is empty exactly when \<open>s\<close> is
  empty or ends with a null byte. In particular, when \<open>s\<close> is \<open>n\<close> names, each followed
  by a null byte, the pages are exactly these names in order.
\<close>

theorem pages_are_split_names:
  assumes "tr (unat ((L * 5) div 2)) (bytes_of d) False = (s, None)"
    and "length s \<le> unat ((L * 5) div 2)"
  shows "decodeBlock tr f 3 L d = Inr (f\<lparr>Pages := butlast (Split s 0)\<rparr>)
       \<and> concat (map (\<lambda>p. p @ [0]) (butlast (Split s 0))) @ last (Split s 0) = s
       \<and> (\<forall>p \<in> set (Split s 0). 0 \<notin> set p)
       \<and> ((last (Split s 0) = []) = (s = [] \<or> last s = 0))
       \<and> (\<forall>names. (\<forall>n \<in> set names. 0 \<notin> set n) \<and> s = concat (map (\<lambda>n. n @ [0]) names)
             \<longrightarrow> decodeBlock tr f 3 L d = Inr (f\<lparr>Pages := names\<rparr>))"
proof (intro conjI allI impI ballI)
  show d: "decodeBlock tr f 3 L d = Inr (f\<lparr>Pages := butlast (Split s 0)\<rparr>)"
    using assms by (rule decodeBlock_pages)
  show "concat (map (\<lambda>p. p @ [0]) (butlast (Split s 0))) @ last (Split s 0) = s"
    by (rule Split_join)
  show "0 \<notin> set p" if "p \<in> set (Split s 0)" for p
    using that by (rule Split_pieces)
  show "(last (Split s 0) = []) = (s = [] \<or> last s = 0)"
    by (rule Split_last_empty)
  show "decodeBlock tr f 3 L d = Inr (f\<lparr>Pages := names\<rparr>)"
    if "(\<forall>n \<in> set names. 0 \<notin> set n) \<and> s = concat (map (\<lambda>n. n @ [0]) names)" for names
    using that d by (simp add: Split_names)
qed

lemma Windows1252_ascii_pages: "Windows1252 10 [0x41, 0, 0x42, 0] False = ([0x41, 0, 0x42, 0], None)"
  by (simp add: Windows1252_def)

theorem pages_are_split_names_witness:
  "decodeBlock Windows1252 NewFont 3 4 (of_bytes [0x41, 0, 0x42, 0])
     = Inr (NewFont\<lparr>Pages := [[0x41], [0x42]]\<rparr>)"
proof -
  let ?d = "of_bytes [0x41, 0, 0x42, 0]"
  let ?s = "[0x41, 0, 0x42, 0] :: byte list"
  have n: "unat (((4 :: uint32) * 5) div 2) = 10" by simp
  have b: "bytes_of ?d = ?s" by (simp add: slice_defs)
  have 1: "Windows1252 (unat (((4 :: uint32) * 5) div 2)) (bytes_of ?d) False = (?s, None)"
    unfolding n b by (rule Windows1252_ascii_pages)
  have 2: "length ?s \<le> unat (((4 :: uint32) * 5) div 2)"
    unfolding n by simp
  have 3: "(\<forall>n \<in> set [[0x41], [0x42 :: byte]]. 0 \<notin> set n)
           \<and> ?s = concat (map (\<lambda>n. n @ [0]) [[0x41], [0x42]])"
    by simp
  from pages_are_split_names
         [where tr = Windows1252 and L = 4 and d = ?d and s = ?s and f = NewFont, OF 1 2] 3
  show ?thesis
    by blast
qed

section \<open>The Chars and KerningPairs blocks\<close>

lemma forEach_ok:
  assumes "\<And>i. i \<in> set ns \<Longrightarrow> is_ok (g i)"
  shows "\<exists>vs. forEach g ns = Inr vs \<and> length vs = length ns
              \<and> (\<forall>k < length ns. g (ns ! k) = Inr (vs ! k))"
  using assms
proof (induction ns)
  case Nil
  show ?case by simp
next
  case (Cons i ns)
  from Cons.prems [of i] obtain v where v: "g i = Inr v"
    by (cases "g i") simp_all
  from Cons.IH Cons.prems obtain vs where vs: "forEach g ns = Inr vs" "length vs = length ns"
    "\<forall>k < length ns. g (ns ! k) = Inr (vs ! k)"
    by auto
  have "\<forall>k < length (i # ns). g ((i # ns) ! k) = Inr ((v # vs) ! k)"
    using v vs(3) by (auto simp: nth_Cons split: nat.splits)
  with v vs(1,2) show ?case by simp
qed

lemma Char_fromBinary_ok:
  assumes "wf_slice b" and "20 \<le> slen b"
  shows "is_ok (Char_fromBinary b)"
  using assms by (simp add: Char_fromBinary_def slice_defs wf_slice_def)

lemma KerningPair_fromBinary_ok:
  assumes "wf_slice b" and "10 \<le> slen b"
  shows "is_ok (KerningPair_fromBinary b)"
  using assms by (simp add: KerningPair_fromBinary_def slice_defs wf_slice_def)

lemma record_slice:
  assumes "wf_slice d" and "i < slen d div n" and "0 < n"
  shows "slice_lh d (i * n) (i * n + n) = Inr \<lparr>elems = drop (i * n) (elems d), slen = n\<rparr>"
    and "wf_slice \<lparr>elems = drop (i * n) (elems d), slen = n\<rparr>"
    and "bytes_of \<lparr>elems = drop (i * n) (elems d), slen = n\<rparr> = take n (drop (i * n) (bytes_of d))"
proof -
  from assms(2) have "Suc i \<le> slen d div n" by simp
  then have "Suc i * n \<le> slen d"
    using assms(3) by (simp add: less_eq_div_iff_mult_less_eq)
  then have le: "i * n + n \<le> slen d" by (simp add: add.commute)
  with assms(1) have c: "i * n + n \<le> length (elems d)"
    by (simp add: wf_slice_def cap_def)
  show "slice_lh d (i * n) (i * n + n) = Inr \<lparr>elems = drop (i * n) (elems d), slen = n\<rparr>"
    using c by (simp add: slice_lh_def cap_def)
  show "wf_slice \<lparr>elems = drop (i * n) (elems d), slen = n\<rparr>"
    using c by (simp add: wf_slice_def cap_def)
  show "bytes_of \<lparr>elems = drop (i * n) (elems d), slen = n\<rparr> = take n (drop (i * n) (bytes_of d))"
    using le by (simp add: bytes_of_def drop_take)
qed

lemma Char_fromBinary_bytes:
  assumes "wf_slice b" and "slen b = 20"
  shows "Char_fromBinary b = Char_fromBinary (of_bytes (bytes_of b))"
  using assms by (simp add: Char_fromBinary_def slice_defs wf_slice_def)

lemma KerningPair_fromBinary_bytes:
  assumes "wf_slice b" and "slen b = 10"
  shows "KerningPair_fromBinary b = KerningPair_fromBinary (of_bytes (bytes_of b))"
  using assms by (simp add: KerningPair_fromBinary_def slice_defs wf_slice_def)

lemma decodeBlock_chars:
  assumes "wf_slice d" and "slen d = unat L"
  shows "\<exists>cs. decodeBlock tr f 4 L d = Inr (f\<lparr>Chars := cs\<rparr>)
            \<and> length cs = unat L div 20
            \<and> (\<forall>i < unat L div 20.
                 Char_fromBinary (of_bytes (take 20 (drop (i * 20) (bytes_of d)))) = Inr (cs ! i))"
proof -
  let ?g = "\<lambda>i. wrap (CharError i) (bindR (slice_lh d (i * 20) (i * 20 + 20)) Char_fromBinary)"
  let ?sub = "\<lambda>i. \<lparr>elems = drop (i * 20) (elems d), slen = 20\<rparr>"
  have n: "unat (L div 20) = unat L div 20"
    by (simp add: unat_div)
  have g: "?g i = Char_fromBinary (of_bytes (take 20 (drop (i * 20) (bytes_of d))))
           \<and> is_ok (?g i)" if "i < unat L div 20" for i
  proof -
    from that assms(2) have i: "i < slen d div 20" by simp
    note r = record_slice [OF assms(1) i]
    have ok: "is_ok (Char_fromBinary (?sub i))"
      using r(2) by (intro Char_fromBinary_ok) simp_all
    then have "?g i = Char_fromBinary (?sub i)"
      using r(1) by (cases "Char_fromBinary (?sub i)") simp_all
    moreover have "Char_fromBinary (?sub i) = Char_fromBinary (of_bytes (bytes_of (?sub i)))"
      using r(2) by (intro Char_fromBinary_bytes) simp_all
    ultimately show ?thesis using ok r(3) by simp
  qed
  have "\<And>i. i \<in> set [0 ..< unat L div 20] \<Longrightarrow> is_ok (?g i)"
    using g [THEN conjunct2] by (simp del: wrap_simps bindR_simps)
  from forEach_ok [of "[0 ..< unat L div 20]" ?g, OF this]
  obtain cs where cs: "forEach ?g [0 ..< unat L div 20] = Inr cs" "length cs = unat L div 20"
    "\<forall>k < unat L div 20. ?g k = Inr (cs ! k)"
    by auto
  have "decodeBlock tr f 4 L d = Inr (f\<lparr>Chars := cs\<rparr>)"
    using cs(1) by (simp add: decodeBlock_def n)
  moreover have "\<forall>i < unat L div 20.
      Char_fromBinary (of_bytes (take 20 (drop (i * 20) (bytes_of d)))) = Inr (cs ! i)"
    using cs(3) g by metis
  ultimately show ?thesis using cs(2) by blast
qed

lemma decodeBlock_kerning:
  assumes "wf_slice d" and "slen d = unat L"
  shows "\<exists>ks. decodeBlock tr f 5 L d = Inr (f\<lparr>KerningPairs := ks\<rparr>)
            \<and> length ks = unat L div 10
            \<and> (\<forall>i < unat L div 10.
                 KerningPair_fromBinary (of_bytes (take 10 (drop (i * 10) (bytes_of d))))
                   = Inr (ks ! i))"
proof -
  let ?g = "\<lambda>i. wrap (KerningPairError i)
                 (bindR (slice_lh d (i * 10) (i * 10 + 10)) KerningPair_fromBinary)"
  let ?sub = "\<lambda>i. \<lparr>elems = drop (i * 10) (elems d), slen = 10\<rparr>"
  have n: "unat (L div 10) = unat L div 10"
    by (simp add: unat_div)
  have g: "?g i = KerningPair_fromBinary (of_bytes (take 10 (drop (i * 10) (bytes_of d))))
           \<and> is_ok (?g i)" if "i < unat L div 10" for i
  proof -
    from that assms(2) have i: "i < slen d div 10" by simp
    note r = record_slice [OF assms(1) i]
    have ok: "is_ok (KerningPair_fromBinary (?sub i))"
      using r(2) by (intro KerningPair_fromBinary_ok) simp_all
    then have "?g i = KerningPair_fromBinary (?sub i)"
      using r(1) by (cases "KerningPair_fromBinary (?sub i)") simp_all
    moreover have "KerningPair_fromBinary (?sub i)
                     = KerningPair_fromBinary (of_bytes (bytes_of (?sub i)))"
      using r(2) by (intro KerningPair_fromBinary_bytes) simp_all
    ultimately show ?thesis using ok r(3) by simp
  qed
  have "\<And>i. i \<in> set [0 ..< unat L div 10] \<Longrightarrow> is_ok (?g i)"
    using g [THEN conjunct2] by (simp del: wrap_simps bindR_simps)
  from forEach_ok [of "[0 ..< unat L div 10]" ?g, OF this]
  obtain ks where ks: "forEach ?g [0 ..< unat L div 10] = Inr ks" "length ks = unat L div 10"
    "\<forall>k < unat L div 10. ?g k = Inr (ks ! k)"
    by auto
  have "decodeBlock tr f 5 L d = Inr (f\<lparr>KerningPairs := ks\<rparr>)"
    using ks(1) by (simp add: decodeBlock_def n)
  moreover have "\<forall>i < unat L div 10.
      KerningPair_fromBinary (of_bytes (take 10 (drop (i * 10) (bytes_of d)))) = Inr (ks ! i)"
    using ks(3) g by metis
  ultimately show ?thesis using ks(2) by blast
qed

text \<open>
  Claim C5. For a Chars block with payload \<open>d\<close> of the declared length \<open>L\<close>, the
  decode succeeds and gives \<open>L div 20\<close> glyph records, where record \<open>i\<close> is what
  \<open>Char.fromBinary\<close> makes of the 20 payload bytes from offset \<open>i * 20\<close>; for a
  KerningPairs block the same holds with 10 in place of 20.
\<close>

theorem record_count_and_slices:
  assumes "wf_slice d" and "slen d = unat L"
  shows "(\<exists>cs. decodeBlock tr f 4 L d = Inr (f\<lparr>Chars := cs\<rparr>)
            \<and> length cs = unat L div 20
            \<and> (\<forall>i < unat L div 20.
                 Char_fromBinary (of_bytes (take 20 (drop (i * 20) (bytes_of d)))) = Inr (cs ! i)))
       \<and> (\<exists>ks. decodeBlock tr f 5 L d = Inr (f\<lparr>KerningPairs := ks\<rparr>)
            \<and> length ks = unat L div 10
            \<and> (\<forall>i < unat L div 10.
                 KerningPair_fromBinary (of_bytes (take 10 (drop (i * 10) (bytes_of d))))
                   = Inr (ks ! i)))"
  using decodeBlock_chars [OF assms] decodeBlock_kerning [OF assms] by blast

theorem record_count_and_slices_witness:
  "decodeBlock Windows1252 NewFont 4 20
      (of_bytes [1, 0, 0, 0, 2, 0, 3, 0, 4, 0, 5, 0, 0xFF, 0xFF, 7, 0, 8, 0, 9, 10])
     = Inr (NewFont\<lparr>Chars := [\<lparr>Id = 1, X = 2, Y = 3, Width = 4, Height = 5,
              Xoffset = Int16 0xFFFF, Yoffset = Int16 7, Xadvance = Int16 8,
              Page = 9, Chnl = 10\<rparr>]\<rparr>)
   \<and> (\<exists>ks. decodeBlock Windows1252 NewFont 5 20
      (of_bytes [1, 0, 0, 0, 2, 0, 3, 0, 4, 0, 5, 0, 0xFF, 0xFF, 7, 0, 8, 0, 9, 10])
     = Inr (NewFont\<lparr>KerningPairs := ks\<rparr>) \<and> length ks = 2)"
proof -
  let ?bs = "[1, 0, 0, 0, 2, 0, 3, 0, 4, 0, 5, 0, 0xFF, 0xFF, 7, 0, 8, 0, 9, 10] :: byte list"
  let ?c = "\<lparr>Id = 1, X = 2, Y = 3, Width = 4, Height = 5,
              Xoffset = Int16 0xFFFF, Yoffset = Int16 7, Xadvance = Int16 8,
              Page = 9, Chnl = 10\<rparr>"
  have h: "wf_slice (of_bytes ?bs)" "slen (of_bytes ?bs) = unat (20 :: uint32)"
    by (simp_all add: wf_slice_def slice_defs)
  have n: "unat (20 :: uint32) div 20 = 1" "unat (20 :: uint32) div 10 = 2"
    by simp_all
  have t: "take 20 (drop (0 * 20) (bytes_of (of_bytes ?bs))) = ?bs"
    by (simp add: slice_defs)
  have r: "Char_fromBinary (of_bytes ?bs) = Inr ?c"
    by (simp add: Char_fromBinary_def slice_defs)
  from record_count_and_slices [OF h, of Windows1252 NewFont]
  obtain cs ks where
    cs: "decodeBlock Windows1252 NewFont 4 20 (of_bytes ?bs) = Inr (NewFont\<lparr>Chars := cs\<rparr>)"
      "length cs = unat (20 :: uint32) div 20"
      "\<forall>i < unat (20 :: uint32) div 20.
         Char_fromBinary (of_bytes (take 20 (drop (i * 20) (bytes_of (of_bytes ?bs))))) = Inr (cs ! i)"
    and ks: "decodeBlock Windows1252 NewFont 5 20 (of_bytes ?bs) = Inr (NewFont\<lparr>KerningPairs := ks\<rparr>)"
      "length ks = unat (20 :: uint32) div 10"
    by blast
  from cs(3) have "Char_fromBinary (of_bytes (take 20 (drop (0 * 20) (bytes_of (of_bytes ?bs)))))
                     = Inr (cs ! 0)"
    unfolding n by blast
  then have "cs ! 0 = ?c" unfolding t r by simp
  moreover from cs(2) have "length cs = 1" unfolding n .
  ultimately have "cs = [?c]"
    by (cases cs) simp_all
  with cs(1) ks show ?thesis unfolding n by blast
qed

section \<open>Several blocks of one kind\<close>

lemma blockStep_same:
  assumes "0 < slen fb"
    and "\<And>L d. decodeBlock tr g (elems fb ! 0) L d = decodeBlock tr f (elems fb ! 0) L d"
  shows "blockStep tr g fb = blockStep tr f fb"
  using assms by (simp add: blockStep_def index_def)

lemma blocks_same:
  assumes "4 < slen fb"
    and "\<And>L d. decodeBlock tr g (elems fb ! 0) L d = decodeBlock tr f (elems fb ! 0) L d"
  shows "blocks tr g fb = blocks tr f fb"
proof -
  have "blockStep tr g fb = blockStep tr f fb"
    using assms by (intro blockStep_same) simp_all
  then show ?thesis
    using assms(1) by (subst (1 2) blocks.simps) simp
qed

lemma bindR_update:
  assumes "\<And>v. k v = k' v"
  shows "bindR r k = bindR r k'"
  using assms by (cases r) simp_all

lemma decodeBlock_replaces:
  "decodeBlock tr (f\<lparr>Info := i\<rparr>) 1 L d = decodeBlock tr f 1 L d"
  "decodeBlock tr (f\<lparr>Common := c\<rparr>) 2 L d = decodeBlock tr f 2 L d"
  "decodeBlock tr (f\<lparr>Pages := ps\<rparr>) 3 L d = decodeBlock tr f 3 L d"
  "decodeBlock tr (f\<lparr>Chars := cs\<rparr>) 4 L d = decodeBlock tr f 4 L d"
  "decodeBlock tr (f\<lparr>KerningPairs := ks\<rparr>) 5 L d = decodeBlock tr f 5 L d"
  by (simp_all add: decodeBlock_def Let_def split: prod.splits option.splits)

text \<open>A block changes no part of the document but the one of its kind.\<close>

lemma decodeBlock_frame:
  assumes "decodeBlock tr f t L d = Inr f'"
  shows "(t \<noteq> 1 \<longrightarrow> Info f' = Info f) \<and> (t \<noteq> 2 \<longrightarrow> Common f' = Common f)
       \<and> (t \<noteq> 3 \<longrightarrow> Pages f' = Pages f) \<and> (t \<noteq> 4 \<longrightarrow> Chars f' = Chars f)
       \<and> (t \<noteq> 5 \<longrightarrow> KerningPairs f' = KerningPairs f)"
  using assms
  by (auto simp: decodeBlock_def bindR_def Let_def
           split: if_splits sum.splits prod.splits option.splits)

lemma decodeBlock_allocates:
  "decodeBlock tr f 1 L d = Inr f' \<Longrightarrow> Info f' \<noteq> None"
  "decodeBlock tr f 2 L d = Inr f' \<Longrightarrow> Common f' \<noteq> None"
  by (auto simp: decodeBlock_def bindR_def split: sum.splits)

text \<open>
  Claim C4. The claim: the records of a later block of the same kind are appended to
  those of the earlier blocks. The code assigns: \<^verbatim>\<open>f.KerningPairs = make(...)\<close>. After
  two KerningPairs blocks of one record each the document holds the second record only.
\<close>

theorem blocks_append_counterexample:
  "NewFontFromBuf Windows1252
     (of_bytes [0x42, 0x4D, 0x46, 3,
                5, 10, 0, 0, 0, 1, 0, 0, 0, 2, 0, 0, 0, 3, 0,
                5, 10, 0, 0, 0, 4, 0, 0, 0, 5, 0, 0, 0, 6, 0])
   = Inr (NewFont\<lparr>KerningPairs := [\<lparr>First = 4, Second = 5, Amount = 6\<rparr>]\<rparr>)"
  by (simp add: NewFontFromBuf_def FromBuffer_def blockStep_def decodeBlock_def
      KerningPair_fromBinary_def slice_defs)

text \<open>
  When the loop stands at a block of one of the five kinds, its outcome does not depend
  on what the document holds for that kind.
\<close>

lemma block_ignores_old_value:
  assumes "4 < slen fb"
  shows "(elems fb ! 0 = 1 \<longrightarrow> blocks tr (f\<lparr>Info := i\<rparr>) fb = blocks tr f fb)
       \<and> (elems fb ! 0 = 2 \<longrightarrow> blocks tr (f\<lparr>Common := c\<rparr>) fb = blocks tr f fb)
       \<and> (elems fb ! 0 = 3 \<longrightarrow> blocks tr (f\<lparr>Pages := ps\<rparr>) fb = blocks tr f fb)
       \<and> (elems fb ! 0 = 4 \<longrightarrow> blocks tr (f\<lparr>Chars := cs\<rparr>) fb = blocks tr f fb)
       \<and> (elems fb ! 0 = 5 \<longrightarrow> blocks tr (f\<lparr>KerningPairs := ks\<rparr>) fb = blocks tr f fb)
       \<and> (\<forall>L d f'. decodeBlock tr f 1 L d = Inr f' \<longrightarrow> Info f' \<noteq> None)
       \<and> (\<forall>L d f'. decodeBlock tr f 2 L d = Inr f' \<longrightarrow> Common f' \<noteq> None)
       \<and> (\<forall>t L d f'. decodeBlock tr f t L d = Inr f' \<longrightarrow>
             (t \<noteq> 1 \<longrightarrow> Info f' = Info f) \<and> (t \<noteq> 2 \<longrightarrow> Common f' = Common f)
           \<and> (t \<noteq> 3 \<longrightarrow> Pages f' = Pages f) \<and> (t \<noteq> 4 \<longrightarrow> Chars f' = Chars f)
           \<and> (t \<noteq> 5 \<longrightarrow> KerningPairs f' = KerningPairs f))"
proof -
  have 1: "blocks tr (f\<lparr>Info := i\<rparr>) fb = blocks tr f fb" if t: "elems fb ! 0 = 1"
    by (rule blocks_same [OF assms]) (simp only: t decodeBlock_replaces)
  have 2: "blocks tr (f\<lparr>Common := c\<rparr>) fb = blocks tr f fb" if t: "elems fb ! 0 = 2"
    by (rule blocks_same [OF assms]) (simp only: t decodeBlock_replaces)
  have 3: "blocks tr (f\<lparr>Pages := ps\<rparr>) fb = blocks tr f fb" if t: "elems fb ! 0 = 3"
    by (rule blocks_same [OF assms]) (simp only: t decodeBlock_replaces)
  have 4: "blocks tr (f\<lparr>Chars := cs\<rparr>) fb = blocks tr f fb" if t: "elems fb ! 0 = 4"
    by (rule blocks_same [OF assms]) (simp only: t decodeBlock_replaces)
  have 5: "blocks tr (f\<lparr>KerningPairs := ks\<rparr>) fb = blocks tr f fb" if t: "elems fb ! 0 = 5"
    by (rule blocks_same [OF assms]) (simp only: t decodeBlock_replaces)
  have 6: "\<forall>L d f'. decodeBlock tr f 1 L d = Inr f' \<longrightarrow> Info f' \<noteq> None"
    using decodeBlock_allocates(1) by blast
  have 7: "\<forall>L d f'. decodeBlock tr f 2 L d = Inr f' \<longrightarrow> Common f' \<noteq> None"
    using decodeBlock_allocates(2) by blast
  have 8: "\<forall>t L d f'. decodeBlock tr f t L d = Inr f' \<longrightarrow>
             (t \<noteq> 1 \<longrightarrow> Info f' = Info f) \<and> (t \<noteq> 2 \<longrightarrow> Common f' = Common f)
           \<and> (t \<noteq> 3 \<longrightarrow> Pages f' = Pages f) \<and> (t \<noteq> 4 \<longrightarrow> Chars f' = Chars f)
           \<and> (t \<noteq> 5 \<longrightarrow> KerningPairs f' = KerningPairs f)"
    by (intro allI impI, rule decodeBlock_frame)
  from 1 2 3 4 5 6 7 8 show ?thesis
    by (intro conjI impI) assumption+
qed

text \<open>
  A pass that goes through has decoded the declared payload; a document that the loop
  returns holds, for a kind of which no further block is dispatched, what it held
  before.
\<close>

lemma blockStep_decode:
  assumes "blockStep tr f fb = Inr (f', rest)"
  obtains L d where "u32_at fb 1 5 = Inr L" and "slice_lh fb 5 (unat (5 + L)) = Inr d"
    and "decodeBlock tr f (elems fb ! 0) L d = Inr f'"
    and "slice_l fb (unat (5 + L)) = Inr rest"
  using assms
  by (auto simp: blockStep_def bindR_def index_def split: sum.splits if_splits)

lemma blocks_keeps:
  assumes "blocks tr f fb = Inr doc" and "t \<notin> set (laterTags tr f fb)"
  shows "(t = 1 \<longrightarrow> Info doc = Info f) \<and> (t = 2 \<longrightarrow> Common doc = Common f)
       \<and> (t = 3 \<longrightarrow> Pages doc = Pages f) \<and> (t = 4 \<longrightarrow> Chars doc = Chars f)
       \<and> (t = 5 \<longrightarrow> KerningPairs doc = KerningPairs f)"
  using assms
proof (induction tr f fb rule: blocks.induct)
  case (1 tr f fb)
  show ?case
  proof (cases "4 < slen fb")
    case False
    with "1.prems"(1) have "doc = f" by simp
    then show ?thesis by simp
  next
    case True
    from "1.prems"(1) have c: "(case blockStep tr f fb of Inl e \<Rightarrow> Inl e
                               | Inr (f', rest) \<Rightarrow> blocks tr f' rest) = Inr doc"
      unfolding blocks_step_eq [OF True] .
    then obtain f' rest where s: "blockStep tr f fb = Inr (f', rest)"
      and b: "blocks tr f' rest = Inr doc"
      by (cases "blockStep tr f fb") (auto simp del: blocks.simps)
    have "laterTags tr f fb = elems fb ! 0 # laterTags tr f' rest"
      using True s by (subst laterTags.simps) (simp del: laterTags.simps)
    with "1.prems"(2) have n: "elems fb ! 0 \<noteq> t" "t \<notin> set (laterTags tr f' rest)"
      by (auto simp del: laterTags.simps)
    from s obtain L d where "decodeBlock tr f (elems fb ! 0) L d = Inr f'"
      by (rule blockStep_decode)
    note fr = decodeBlock_frame [OF this]
    from "1.IH" [OF True s refl b n(2)] fr n(1) show ?thesis
      by (auto simp del: blocks.simps laterTags.simps)
  qed
qed

lemma decodeBlock_info_inv:
  assumes "decodeBlock tr f 1 L d = Inr f'"
  shows "\<exists>i. Info_fromBinary tr d = Inr i \<and> f' = f\<lparr>Info := Some i\<rparr>"
  using assms
  by (cases "Info_fromBinary tr d" rule: no_err.cases) (auto simp: decodeBlock_def)

lemma decodeBlock_common_inv:
  assumes "decodeBlock tr f 2 L d = Inr f'"
  shows "\<exists>c. Common_fromBinary d = Inr c \<and> f' = f\<lparr>Common := Some c\<rparr>"
  using assms
  by (cases "Common_fromBinary d" rule: no_err.cases) (auto simp: decodeBlock_def)

lemma decodeBlock_pages_inv:
  assumes "decodeBlock tr f 3 L d = Inr f'"
  shows "\<exists>s. tr (unat ((L * 5) div 2)) (bytes_of d) False = (s, None)
             \<and> f' = f\<lparr>Pages := butlast (Split s 0)\<rparr>"
  using assms
  by (auto simp: decodeBlock_def Let_def split: prod.splits option.splits if_splits)

text \<open>
  Claim C4, as amended. A block replaces what earlier blocks of its kind have put into
  the document, so the final document holds the records of the last block of each kind
  only. Let the header be accepted, let the loop after \<open>k\<close> blocks stand at a block
  with declared length \<open>L\<close> that is decoded, let no later block of the same kind be
  dispatched, and let the decode return a document. Then, whatever the blocks before
  have stored: for a Chars block the document has \<open>L div 20\<close> glyph records, record
  \<open>i\<close> decoded from the 20 payload bytes at offset \<open>i * 20\<close>; for a KerningPairs
  block the same with 10; for a Pages block the pages are the split text of this
  payload; for an Info or Common block the slot holds the record decoded from this
  payload.
\<close>

theorem last_block_wins:
  assumes "stateAt k tr f b = Some (f1, fb)" and "4 < slen fb" and "u32_at fb 1 5 = Inr L"
    and "blockStep tr f1 fb = Inr (f2, rest)"
    and "elems fb ! 0 \<notin> set (laterTags tr f2 rest)"
    and "FromBuffer tr f b = Inr doc"
  shows "(elems fb ! 0 = 1 \<longrightarrow>
           (\<exists>i. Info_fromBinary tr \<lparr>elems = drop 5 (elems fb), slen = unat L\<rparr> = Inr i
                \<and> Info doc = Some i))
       \<and> (elems fb ! 0 = 2 \<longrightarrow>
           (\<exists>c. Common_fromBinary \<lparr>elems = drop 5 (elems fb), slen = unat L\<rparr> = Inr c
                \<and> Common doc = Some c))
       \<and> (elems fb ! 0 = 3 \<longrightarrow>
           (\<exists>s. tr (unat ((L * 5) div 2)) (take (unat L) (drop 5 (elems fb))) False = (s, None)
                \<and> Pages doc = butlast (Split s 0)))
       \<and> (elems fb ! 0 = 4 \<longrightarrow>
           length (Chars doc) = unat L div 20
           \<and> (\<forall>i < unat L div 20.
                 Char_fromBinary
                   (of_bytes (take 20 (drop (i * 20) (take (unat L) (drop 5 (elems fb))))))
                 = Inr (Chars doc ! i)))
       \<and> (elems fb ! 0 = 5 \<longrightarrow>
           length (KerningPairs doc) = unat L div 10
           \<and> (\<forall>i < unat L div 10.
                 KerningPair_fromBinary
                   (of_bytes (take 10 (drop (i * 10) (take (unat L) (drop 5 (elems fb))))))
                 = Inr (KerningPairs doc ! i)))"
proof -
  let ?t = "elems fb ! 0"
  let ?d = "\<lparr>elems = drop 5 (elems fb), slen = unat L\<rparr>"
  have "FromBuffer tr f b = blocks tr f1 fb"
    using assms(1) by (rule stateAt_FromBuffer)
  also have "\<dots> = blocks tr f2 rest"
    using assms(4) by (simp add: blocks_step_eq [OF assms(2)] del: blocks.simps)
  finally have fin: "blocks tr f2 rest = Inr doc"
    using assms(6) by simp
  note keep = blocks_keeps [OF fin assms(5)]
  from assms(4) obtain L' d where "u32_at fb 1 5 = Inr L'"
    and s: "slice_lh fb 5 (unat (5 + L')) = Inr d"
    and dec: "decodeBlock tr f1 ?t L' d = Inr f2"
    by (rule blockStep_decode)
  with assms(3) have L: "L' = L" by simp
  note p = payload_slice [OF s [unfolded L]]
  have d: "d = ?d" by (rule p(2))
  have wf: "wf_slice ?d" using p(3) d by simp
  have len: "slen ?d = unat L" by simp
  have bs: "bytes_of ?d = take (unat L) (drop 5 (elems fb))"
    by (simp add: bytes_of_def)
  note dec' = dec [unfolded L d]
  have 1: "\<exists>i. Info_fromBinary tr ?d = Inr i \<and> Info doc = Some i" if t: "?t = 1"
    using decodeBlock_info_inv [OF dec' [unfolded t]] keep t by auto
  have 2: "\<exists>c. Common_fromBinary ?d = Inr c \<and> Common doc = Some c" if t: "?t = 2"
    using decodeBlock_common_inv [OF dec' [unfolded t]] keep t by auto
  have 3: "\<exists>s. tr (unat ((L * 5) div 2)) (take (unat L) (drop 5 (elems fb))) False = (s, None)
                \<and> Pages doc = butlast (Split s 0)" if t: "?t = 3"
    using decodeBlock_pages_inv [OF dec' [unfolded t]] keep t unfolding bs by auto
  have 4: "length (Chars doc) = unat L div 20
           \<and> (\<forall>i < unat L div 20.
                 Char_fromBinary
                   (of_bytes (take 20 (drop (i * 20) (take (unat L) (drop 5 (elems fb))))))
                 = Inr (Chars doc ! i))" if t: "?t = 4"
  proof -
    from decodeBlock_chars [OF wf len, of tr f1] dec' [unfolded t]
    obtain cs where "f2 = f1\<lparr>Chars := cs\<rparr>" "length cs = unat L div 20"
      "\<forall>i < unat L div 20.
         Char_fromBinary (of_bytes (take 20 (drop (i * 20) (bytes_of ?d)))) = Inr (cs ! i)"
      by auto
    with keep t show ?thesis unfolding bs by simp
  qed
  have 5: "length (KerningPairs doc) = unat L div 10
           \<and> (\<forall>i < unat L div 10.
                 KerningPair_fromBinary
                   (of_bytes (take 10 (drop (i * 10) (take (unat L) (drop 5 (elems fb))))))
                 = Inr (KerningPairs doc ! i))" if t: "?t = 5"
  proof -
    from decodeBlock_kerning [OF wf len, of tr f1] dec' [unfolded t]
    obtain ks where "f2 = f1\<lparr>KerningPairs := ks\<rparr>" "length ks = unat L div 10"
      "\<forall>i < unat L div 10.
         KerningPair_fromBinary (of_bytes (take 10 (drop (i * 10) (bytes_of ?d)))) = Inr (ks ! i)"
      by auto
    with keep t show ?thesis unfolding bs by simp
  qed
  from 1 2 3 4 5 show ?thesis by blast
qed

theorem last_block_wins_witness:
  "FromBuffer Windows1252 NewFont
     (of_bytes [0x42, 0x4D, 0x46, 3,
                5, 10, 0, 0, 0, 1, 0, 0, 0, 2, 0, 0, 0, 3, 0,
                5, 10, 0, 0, 0, 4, 0, 0, 0, 5, 0, 0, 0, 6, 0])
     = Inr (NewFont\<lparr>KerningPairs := [\<lparr>First = 4, Second = 5, Amount = 6\<rparr>]\<rparr>)
   \<and> length [\<lparr>First = 4, Second = 5, Amount = 6\<rparr>] = unat (10 :: uint32) div 10
   \<and> KerningPair_fromBinary (of_bytes [4, 0, 0, 0, 5, 0, 0, 0, 6, 0])
       = Inr ([\<lparr>First = 4, Second = 5, Amount = 6\<rparr>] ! 0)"
proof -
  let ?b = "of_bytes [0x42, 0x4D, 0x46, 3,
                5, 10, 0, 0, 0, 1, 0, 0, 0, 2, 0, 0, 0, 3, 0,
                5, 10, 0, 0, 0, 4, 0, 0, 0, 5, 0, 0, 0, 6, 0]"
  let ?f1 = "NewFont\<lparr>KerningPairs := [\<lparr>First = 1, Second = 2, Amount = 3\<rparr>]\<rparr>"
  let ?fb = "\<lparr>elems = [5, 10, 0, 0, 0, 4, 0, 0, 0, 5, 0, 0, 0, 6, 0], slen = 15\<rparr>"
  let ?f2 = "NewFont\<lparr>KerningPairs := [\<lparr>First = 4, Second = 5, Amount = 6\<rparr>]\<rparr>"
  let ?rest = "\<lparr>elems = [], slen = 0\<rparr>"
  have h: "stateAt 1 Windows1252 NewFont ?b = Some (?f1, ?fb)"
    "4 < slen ?fb" "u32_at ?fb 1 5 = Inr 10"
    "blockStep Windows1252 ?f1 ?fb = Inr (?f2, ?rest)"
    "elems ?fb ! 0 \<notin> set (laterTags Windows1252 ?f2 ?rest)"
    "FromBuffer Windows1252 NewFont ?b = Inr ?f2"
    by (simp_all add: stateAt_def FromBuffer_def blockStep_def decodeBlock_def
        KerningPair_fromBinary_def slice_defs)
  have t: "elems ?fb ! 0 = 5" by simp
  have p: "take 10 (drop (0 * 10) (take (unat (10 :: uint32)) (drop 5 (elems ?fb))))
             = [4, 0, 0, 0, 5, 0, 0, 0, 6, 0]"
    by simp
  from last_block_wins [OF h] t
  have "length (KerningPairs ?f2) = unat (10 :: uint32) div 10
        \<and> (\<forall>i < unat (10 :: uint32) div 10.
              KerningPair_fromBinary
                (of_bytes (take 10 (drop (i * 10) (take (unat (10 :: uint32)) (drop 5 (elems ?fb))))))
              = Inr (KerningPairs ?f2 ! i))"
    by blast
  then have "length (KerningPairs ?f2) = unat (10 :: uint32) div 10
        \<and> KerningPair_fromBinary
                (of_bytes (take 10 (drop (0 * 10) (take (unat (10 :: uint32)) (drop 5 (elems ?fb))))))
              = Inr (KerningPairs ?f2 ! 0)"
    by simp
  with h(6) show ?thesis unfolding p by simp
qed

end
